theory Spec2Isabelle
  imports Main "HOL-Library.Char_ord" "HOL-Library.Word"
begin

unbundle bit_operations_syntax

section \<open>Model names and digests (types/model/name.go)\<close>

text \<open>
  Go strings are byte sequences; they are modelled as \<open>string\<close> (a list of 8-bit
  \<open>char\<close>s). A byte comparison such as \<^verbatim>\<open>c >= 'A' && c <= 'Z'\<close> is the order of
  \<open>char\<close>, which compares the byte values.
\<close>

subsection \<open>Constants and part kinds\<close>

definition MissingPart :: string where
  "MissingPart = ''!MISSING!''"

datatype partKind = kindHost | kindNamespace | kindModel | kindTag | kindDigest

text \<open>\<^verbatim>\<open>partKind(i)\<close> for the loop index of \<^verbatim>\<open>Name.IsValid\<close>.\<close>

fun partKind_of :: "nat \<Rightarrow> partKind" where
  "partKind_of i =
     (if i = 0 then kindHost else if i = 1 then kindNamespace else if i = 2 then kindModel
      else if i = 3 then kindTag else kindDigest)"

subsection \<open>Strings of the Go runtime and standard library\<close>

text \<open>
  \<^verbatim>\<open>for i := range s\<close> over a string visits the byte index of the first byte of every
  UTF-8 encoded code point; an invalid encoding advances by one byte. \<open>rune_width\<close> is
  the number of bytes the clause advances at the head of a non-empty string, after
  \<^verbatim>\<open>decoderune\<close> of the Go runtime (\<^verbatim>\<open>runtime/utf8.go\<close>).
\<close>

definition is_cont :: "char \<Rightarrow> bool" where
  "is_cont c = (0x80 \<le> (of_char c :: nat) \<and> (of_char c :: nat) \<le> 0xBF)"

fun rune_width :: "string \<Rightarrow> nat" where
  "rune_width [] = 0"
| "rune_width (c0 # rest) =
     (let b0 = (of_char c0 :: nat) in
      if b0 < 0x80 then 1
      else if 0xC0 \<le> b0 \<and> b0 < 0xE0 then
        (case rest of
           c1 # _ \<Rightarrow>
             if is_cont c1 \<and> 0x7F < (b0 mod 0x20) * 0x40 + (of_char c1 :: nat) mod 0x40
             then 2 else 1
         | _ \<Rightarrow> 1)
      else if 0xE0 \<le> b0 \<and> b0 < 0xF0 then
        (case rest of
           c1 # c2 # _ \<Rightarrow>
             (let r = (b0 mod 0x10) * 0x1000 + ((of_char c1 :: nat) mod 0x40) * 0x40
                      + (of_char c2 :: nat) mod 0x40 in
              if is_cont c1 \<and> is_cont c2 \<and> 0x7FF < r \<and> \<not> (0xD800 \<le> r \<and> r \<le> 0xDFFF)
              then 3 else 1)
         | _ \<Rightarrow> 1)
      else if 0xF0 \<le> b0 \<and> b0 < 0xF8 then
        (case rest of
           c1 # c2 # c3 # _ \<Rightarrow>
             (let r = (b0 mod 0x08) * 0x40000 + ((of_char c1 :: nat) mod 0x40) * 0x1000
                      + ((of_char c2 :: nat) mod 0x40) * 0x40 + (of_char c3 :: nat) mod 0x40 in
              if is_cont c1 \<and> is_cont c2 \<and> is_cont c3 \<and> 0xFFFF < r \<and> r \<le> 0x10FFFF
              then 4 else 1)
         | _ \<Rightarrow> 1)
      else 1)"

text \<open>
  \<^verbatim>\<open>strings.LastIndex(s, sep)\<close>: the index of the last instance of \<open>sep\<close> in \<open>s\<close>,
  or \<open>-1\<close> when there is none. The candidates are tried from the right.
\<close>

fun LastIndex_from :: "string \<Rightarrow> string \<Rightarrow> nat \<Rightarrow> int" where
  "LastIndex_from s sep 0 = (if take (length sep) s = sep then 0 else - 1)"
| "LastIndex_from s sep (Suc i) =
     (if take (length sep) (drop (Suc i) s) = sep then int (Suc i)
      else LastIndex_from s sep i)"

definition LastIndex :: "string \<Rightarrow> string \<Rightarrow> int" where
  "LastIndex s sep =
     (if length s < length sep then - 1 else LastIndex_from s sep (length s - length sep))"

text \<open>
  \<^verbatim>\<open>strings.Contains(s, substr)\<close>: whether \<open>substr\<close> occurs in \<open>s\<close>; an
  occurrence exists exactly when a last one does.
\<close>

definition Contains :: "string \<Rightarrow> string \<Rightarrow> bool" where
  "Contains s substr = (LastIndex s substr \<ge> 0)"

text \<open>\<^verbatim>\<open>cmp.Or\<close> on two strings: the first that is not the zero value.\<close>

definition cmp_Or :: "string \<Rightarrow> string \<Rightarrow> string" where
  "cmp_Or a b = (if a \<noteq> [] then a else b)"

subsection \<open>Cutting\<close>

definition cutLast :: "string \<Rightarrow> string \<Rightarrow> string \<times> string \<times> bool" where
  "cutLast s sep =
     (let i = LastIndex s sep in
      if i \<ge> 0 then (take (nat i) s, drop (nat i + length sep) s, True)
      else (s, [], False))"

definition cutPromised :: "string \<Rightarrow> string \<Rightarrow> string \<times> string \<times> bool" where
  "cutPromised s sep =
     (case cutLast s sep of
        (before_s, after_s, ok) \<Rightarrow>
          if \<not> ok then (before_s, after_s, False)
          else (cmp_Or before_s MissingPart, cmp_Or after_s MissingPart, True))"

subsection \<open>Validation of parts\<close>

definition isAlphanumeric :: "char \<Rightarrow> bool" where
  "isAlphanumeric c =
     (CHR ''A'' \<le> c \<and> c \<le> CHR ''Z'' \<or> CHR ''a'' \<le> c \<and> c \<le> CHR ''z''
      \<or> CHR ''0'' \<le> c \<and> c \<le> CHR ''9'')"

fun isValidLen :: "partKind \<Rightarrow> string \<Rightarrow> bool" where
  "isValidLen kindHost s = (length s \<ge> 1 \<and> length s \<le> 350)"
| "isValidLen kindTag s = (length s \<ge> 1 \<and> length s \<le> 80)"
| "isValidLen _ s = (length s \<ge> 2 \<and> length s \<le> 80)"

lemma rune_width_pos: "s \<noteq> [] \<Longrightarrow> 0 < rune_width s"
  by (cases s) (auto simp: Let_def split: list.splits)

lemma range_advances:
  "\<not> length s \<le> i \<Longrightarrow> length s - (i + rune_width (drop i s)) < length s - i"
proof -
  assume "\<not> length s \<le> i"
  then have "drop i s \<noteq> []" by simp
  then have "0 < rune_width (drop i s)" by (rule rune_width_pos)
  with \<open>\<not> length s \<le> i\<close> show ?thesis by simp
qed

lemma range_advances_first: "s \<noteq> [] \<Longrightarrow> length s - rune_width s < length s"
  using range_advances [of s 0] by simp

text \<open>
  The loop of \<^verbatim>\<open>isValidPart\<close>, at byte index \<open>i\<close>: the body reads \<^verbatim>\<open>s[i]\<close>, and the
  \<^verbatim>\<open>range\<close> clause moves to the first byte of the next code point.
\<close>

function isValidPart_loop :: "partKind \<Rightarrow> string \<Rightarrow> nat \<Rightarrow> bool" where
  "isValidPart_loop kind s i =
     (if length s \<le> i then True
      else if i = 0 then
        (if \<not> isAlphanumeric (s ! i) then False
         else isValidPart_loop kind s (i + rune_width (drop i s)))
      else if s ! i = CHR ''_'' \<or> s ! i = CHR ''-'' then
        isValidPart_loop kind s (i + rune_width (drop i s))
      else if s ! i = CHR ''.'' then
        (if kind = kindNamespace then False
         else isValidPart_loop kind s (i + rune_width (drop i s)))
      else if s ! i = CHR '':'' then
        (if kind \<noteq> kindHost then False
         else isValidPart_loop kind s (i + rune_width (drop i s)))
      else if \<not> isAlphanumeric (s ! i) then False
      else isValidPart_loop kind s (i + rune_width (drop i s)))"
  by pat_completeness auto
termination
  by (relation "measure (\<lambda>(kind, s, i). length s - i)")
     (auto simp: range_advances range_advances_first)

declare isValidPart_loop.simps [simp del]

definition isValidPart :: "partKind \<Rightarrow> string \<Rightarrow> bool" where
  "isValidPart kind s = (if \<not> isValidLen kind s then False else isValidPart_loop kind s 0)"

text \<open>
  The rule of the loop body in closed form: what byte \<open>c\<close> may stand at index \<open>i\<close>
  of a part of the given kind. \<open>isValidPart_iff\<close> below proves that the loop computes
  exactly this.
\<close>

definition okRest :: "partKind \<Rightarrow> char \<Rightarrow> bool" where
  "okRest kind c =
     (c = CHR ''_'' \<or> c = CHR ''-'' \<or> (c = CHR ''.'' \<and> kind \<noteq> kindNamespace)
      \<or> (c = CHR '':'' \<and> kind = kindHost) \<or> isAlphanumeric c)"

definition okAt :: "partKind \<Rightarrow> nat \<Rightarrow> char \<Rightarrow> bool" where
  "okAt kind i c = (if i = 0 then isAlphanumeric c else okRest kind c)"

definition IsValidShort :: "string \<Rightarrow> string \<Rightarrow> bool" where
  "IsValidShort ns m = (isValidPart kindNamespace ns \<and> isValidPart kindModel m)"

subsection \<open>Names\<close>

record Name =
  host :: string
  namespace :: string
  model :: string
  tag :: string
  rawDigest :: string

definition zeroName :: Name where
  "zeroName = \<lparr>host = [], namespace = [], model = [], tag = [], rawDigest = []\<rparr>"

text \<open>\<^verbatim>\<open>DefaultName\<close>, \<^verbatim>\<open>Name.Merge\<close> and \<^verbatim>\<open>ParseName\<close>.\<close>

definition DefaultName :: Name where
  "DefaultName = zeroName\<lparr>host := ''registry.ollama.ai'', namespace := ''library'',
                           tag := ''latest''\<rparr>"

definition Merge :: "Name \<Rightarrow> Name \<Rightarrow> Name" where
  "Merge n other =
     (let n = n\<lparr>host := cmp_Or (host n) (host other)\<rparr>;
          n = n\<lparr>namespace := cmp_Or (namespace n) (namespace other)\<rparr>;
          n = n\<lparr>tag := cmp_Or (tag n) (tag other)\<rparr>
      in n)"

text \<open>
  \<^verbatim>\<open>ParseNameNoDefaults\<close>: the cuts in the order of the source. Every \<open>s\<close> of the
  source that is reassigned gets a fresh name here.
\<close>

definition ParseNameNoDefaults :: "string \<Rightarrow> Name" where
  "ParseNameNoDefaults s0 =
     (case cutLast s0 ''@'' of (s1, rd, promised) \<Rightarrow>
        let n = zeroName\<lparr>rawDigest := rd\<rparr>;
            n = (if promised \<and> rawDigest n = [] then n\<lparr>rawDigest := MissingPart\<rparr> else n)
        in
        case cutPromised s1 '':'' of (s2, tg, _) \<Rightarrow>
          let n = n\<lparr>tag := tg\<rparr> in
          case cutPromised s2 ''/'' of (s3, m, promised) \<Rightarrow>
            let n = n\<lparr>model := m\<rparr> in
            if \<not> promised then n\<lparr>model := s3\<rparr>
            else
              case cutPromised s3 ''/'' of (s4, ns, promised) \<Rightarrow>
                let n = n\<lparr>namespace := ns\<rparr> in
                if \<not> promised then n\<lparr>namespace := s4\<rparr>
                else n\<lparr>host := s4\<rparr>)"

definition ParseName :: "string \<Rightarrow> Name" where
  "ParseName s = Merge (ParseNameNoDefaults s) DefaultName"

text \<open>\<^verbatim>\<open>Name.IsValid\<close>: the loop over the five parts, \<open>i\<close> the index of the part.\<close>

fun IsValid_loop :: "nat \<Rightarrow> string list \<Rightarrow> bool" where
  "IsValid_loop i [] = True"
| "IsValid_loop i (part # parts) =
     (if part \<noteq> [] \<and> \<not> isValidPart (partKind_of i) part then False
      else IsValid_loop (Suc i) parts)"

definition IsValid :: "Name \<Rightarrow> bool" where
  "IsValid n =
     (if model n = [] \<and> rawDigest n = [] then False
      else IsValid_loop 0 [host n, namespace n, model n, tag n, rawDigest n])"

text \<open>\<^verbatim>\<open>Name.String\<close>: \<open>b\<close> is the contents of the \<^verbatim>\<open>strings.Builder\<close>.\<close>

definition Name_String :: "Name \<Rightarrow> string" where
  "Name_String n =
     (if \<not> IsValid n then []
      else
        let b = [];
            b = (if host n \<noteq> [] then b @ host n @ ''/'' else b);
            b = (if namespace n \<noteq> [] then b @ namespace n @ ''/'' else b);
            b = b @ model n;
            b = (if tag n \<noteq> [] then b @ '':'' @ tag n else b);
            b = (if rawDigest n \<noteq> [] then b @ ''@'' @ rawDigest n else b)
        in b)"

text \<open>
  The shape of the Names that \<open>ParseNameNoDefaults\<close> returns (proved below): the cuts
  fill model, namespace and host in this order, and a colon is cut before any slash.
\<close>

definition parser_shape :: "Name \<Rightarrow> bool" where
  "parser_shape n =
     ((model n = [] \<longrightarrow> host n = [] \<and> namespace n = [] \<and> tag n = [])
      \<and> (host n \<noteq> [] \<longrightarrow> namespace n \<noteq> [])
      \<and> (CHR '':'' \<in> set (host n) \<longrightarrow> tag n \<noteq> []))"

subsection \<open>Hashing and equality\<close>

text \<open>
  The state of a \<^verbatim>\<open>maphash.Hash\<close> is the sequence of bytes written to it so far;
  \<^verbatim>\<open>Sum64\<close> is a function of the seed and of that sequence. The seed is fixed for the
  process, so the seeded hash is a parameter \<open>sum64\<close> of \<open>MapHash\<close>.
\<close>

definition WriteByte :: "string \<Rightarrow> char \<Rightarrow> string" where
  "WriteByte w c = w @ [c]"

function writeLower_loop :: "string \<Rightarrow> string \<Rightarrow> nat \<Rightarrow> string" where
  "writeLower_loop w s i =
     (if length s \<le> i then w
      else if s ! i \<ge> CHR ''A'' \<and> s ! i \<le> CHR ''Z'' then
        writeLower_loop
          (WriteByte w (char_of ((of_char (s ! i) :: int) - of_char CHR ''A'' + of_char CHR ''a'')))
          s (i + rune_width (drop i s))
      else writeLower_loop (WriteByte w (s ! i)) s (i + rune_width (drop i s)))"
  by pat_completeness auto
termination
  by (relation "measure (\<lambda>(w, s, i). length s - i)") (auto simp: range_advances)

declare writeLower_loop.simps [simp del]

definition writeLower :: "string \<Rightarrow> string \<Rightarrow> string" where
  "writeLower w s = writeLower_loop w s 0"

definition MapHash :: "(string \<Rightarrow> 64 word) \<Rightarrow> Name \<Rightarrow> 64 word" where
  "MapHash sum64 n =
     (let h = [];
          h = writeLower h (host n);
          h = writeLower h (namespace n);
          h = writeLower h (model n);
          h = writeLower h (tag n);
          h = writeLower h (rawDigest n)
      in sum64 h)"

definition Equal :: "(string \<Rightarrow> 64 word) \<Rightarrow> Name \<Rightarrow> Name \<Rightarrow> bool" where
  "Equal sum64 n other = (MapHash sum64 n = MapHash sum64 other)"

text \<open>
  Equality of two Names field by field up to ASCII case, which is what the comment of
  \<^verbatim>\<open>Name.Equal\<close> promises; \<open>Equal\<close> above is what the code computes.
\<close>

definition toLowerASCII :: "char \<Rightarrow> char" where
  "toLowerASCII c =
     (if CHR ''A'' \<le> c \<and> c \<le> CHR ''Z'' then char_of ((of_char c :: nat) + 32) else c)"

definition fieldsEqualFold :: "Name \<Rightarrow> Name \<Rightarrow> bool" where
  "fieldsEqualFold n other =
     (map toLowerASCII (host n) = map toLowerASCII (host other)
      \<and> map toLowerASCII (namespace n) = map toLowerASCII (namespace other)
      \<and> map toLowerASCII (model n) = map toLowerASCII (model other)
      \<and> map toLowerASCII (tag n) = map toLowerASCII (tag other)
      \<and> map toLowerASCII (rawDigest n) = map toLowerASCII (rawDigest other))"

subsection \<open>Hexadecimal encoding (\<^verbatim>\<open>encoding/hex\<close>)\<close>

datatype panic = IndexOutOfRange

datatype hex_error = InvalidByteError char | ErrLength

text \<open>\<^verbatim>\<open>reverseHexTable\<close>: the value of a hexadecimal digit, \<open>0xff\<close> for any other byte.\<close>

definition reverseHexTable :: "char \<Rightarrow> 8 word" where
  "reverseHexTable c =
     (if c = CHR ''0'' then 0x00 else if c = CHR ''1'' then 0x01
      else if c = CHR ''2'' then 0x02 else if c = CHR ''3'' then 0x03
      else if c = CHR ''4'' then 0x04 else if c = CHR ''5'' then 0x05
      else if c = CHR ''6'' then 0x06 else if c = CHR ''7'' then 0x07
      else if c = CHR ''8'' then 0x08 else if c = CHR ''9'' then 0x09
      else if c = CHR ''A'' then 0x0a else if c = CHR ''B'' then 0x0b
      else if c = CHR ''C'' then 0x0c else if c = CHR ''D'' then 0x0d
      else if c = CHR ''E'' then 0x0e else if c = CHR ''F'' then 0x0f
      else if c = CHR ''a'' then 0x0a else if c = CHR ''b'' then 0x0b
      else if c = CHR ''c'' then 0x0c else if c = CHR ''d'' then 0x0d
      else if c = CHR ''e'' then 0x0e else if c = CHR ''f'' then 0x0f
      else 0xff)"

text \<open>The hexadecimal digits, in either case.\<close>

definition isHexDigit :: "char \<Rightarrow> bool" where
  "isHexDigit c = (c \<in> set ''0123456789abcdefABCDEF'')"

text \<open>
  \<^verbatim>\<open>hex.Decode(dst, src)\<close>. The loop reads \<^verbatim>\<open>src[j-1]\<close> and \<^verbatim>\<open>src[j]\<close> for
  \<open>j = 1, 3, ...\<close> while \<^verbatim>\<open>j < len(src)\<close>; the third argument is \<^verbatim>\<open>src[j-1:]\<close>.
  The store \<^verbatim>\<open>dst[i] = ...\<close> panics when \<open>i\<close> is not an index of \<open>dst\<close>. The result
  is the destination, the count and the error (\<open>None\<close> for \<^verbatim>\<open>nil\<close>).
\<close>

fun Decode_loop ::
  "8 word list \<Rightarrow> nat \<Rightarrow> string \<Rightarrow> panic + (8 word list \<times> nat \<times> hex_error option)" where
  "Decode_loop dst i (p # q # rest) =
     (let a = reverseHexTable p; b = reverseHexTable q in
      if a > 0x0f then Inr (dst, i, Some (InvalidByteError p))
      else if b > 0x0f then Inr (dst, i, Some (InvalidByteError q))
      else if length dst \<le> i then Inl IndexOutOfRange
      else Decode_loop (dst[i := push_bit 4 a OR b]) (Suc i) rest)"
| "Decode_loop dst i [p] =
     (if reverseHexTable p > 0x0f then Inr (dst, i, Some (InvalidByteError p))
      else Inr (dst, i, Some ErrLength))"
| "Decode_loop dst i [] = Inr (dst, i, None)"

definition Decode ::
  "8 word list \<Rightarrow> string \<Rightarrow> panic + (8 word list \<times> nat \<times> hex_error option)" where
  "Decode dst src = Decode_loop dst 0 src"

text \<open>The bytes that a string of hexadecimal digits stands for, two digits a byte.\<close>

fun hex_bytes :: "string \<Rightarrow> 8 word list" where
  "hex_bytes (p # q # rest) =
     (push_bit 4 (reverseHexTable p) OR reverseHexTable q) # hex_bytes rest"
| "hex_bytes _ = []"

definition hextable :: string where
  "hextable = ''0123456789abcdef''"

fun Encode :: "8 word list \<Rightarrow> string" where
  "Encode [] = []"
| "Encode (v # vs) =
     hextable ! unat (drop_bit 4 v) # hextable ! unat (v AND 0x0f) # Encode vs"

definition EncodeToString :: "8 word list \<Rightarrow> string" where
  "EncodeToString src = Encode src"

subsection \<open>Digests\<close>

type_synonym DigestType = int

definition DigestTypeSHA256 :: DigestType where
  "DigestTypeSHA256 = 1"

definition DigestType_String :: "DigestType \<Rightarrow> string" where
  "DigestType_String t = (if t = DigestTypeSHA256 then ''sha256'' else ''unknown'')"

text \<open>\<^verbatim>\<open>Hash [32]byte\<close>: a list of bytes; a well-formed digest has 32 of them.\<close>

record Digest =
  Type :: DigestType
  Hash :: "8 word list"

definition zeroHash :: "8 word list" where
  "zeroHash = replicate 32 0"

definition zeroDigest :: Digest where
  "zeroDigest = \<lparr>Type = 0, Hash = zeroHash\<rparr>"

definition Digest_IsValid :: "Digest \<Rightarrow> bool" where
  "Digest_IsValid d = (if Type d \<noteq> DigestTypeSHA256 then False else Hash d \<noteq> zeroHash)"

definition Digest_String :: "Digest \<Rightarrow> string" where
  "Digest_String d =
     (let b = [];
          b = b @ DigestType_String (Type d);
          b = b @ ''-'';
          b = b @ EncodeToString (Hash d)
      in b)"

definition ParseDigest :: "string \<Rightarrow> panic + Digest" where
  "ParseDigest s =
     (case cutLast s '':'' of (typ, hash, ok) \<Rightarrow>
        (case (if \<not> ok then cutLast s ''-'' else (typ, hash, ok)) of (typ, hash, ok) \<Rightarrow>
          if \<not> ok then Inr zeroDigest
          else if typ \<noteq> ''sha256'' then Inr zeroDigest
          else
            (case Decode (Hash zeroDigest) hash of
               Inl e \<Rightarrow> Inl e
             | Inr (h, n, err) \<Rightarrow>
                 if err \<noteq> None \<or> n \<noteq> 32 then Inr zeroDigest
                 else Inr \<lparr>Type = DigestTypeSHA256, Hash = h\<rparr>)))"

text \<open>\<^verbatim>\<open>Name.Digest\<close>.\<close>

definition Name_Digest :: "Name \<Rightarrow> panic + Digest" where
  "Name_Digest n = ParseDigest (rawDigest n)"

section \<open>Properties\<close>

subsection \<open>The part validator in closed form\<close>

lemma isAlphanumeric_ascii: "isAlphanumeric c \<Longrightarrow> (of_char c :: nat) < 0x80"
  by (auto simp: isAlphanumeric_def less_eq_char_def)

lemma okRest_ascii: "okRest kind c \<Longrightarrow> (of_char c :: nat) < 0x80"
  by (auto simp: okRest_def dest: isAlphanumeric_ascii)

lemma okAt_ascii: "okAt kind i c \<Longrightarrow> (of_char c :: nat) < 0x80"
  by (auto simp: okAt_def dest: isAlphanumeric_ascii okRest_ascii split: if_splits)

lemma rune_width_ascii: "i < length s \<Longrightarrow> (of_char (s ! i) :: nat) < 0x80 \<Longrightarrow> rune_width (drop i s) = 1"
  by (simp add: Cons_nth_drop_Suc [symmetric])

lemma isAlphanumeric_not_special:
  "isAlphanumeric c \<Longrightarrow> c \<noteq> CHR ''_'' \<and> c \<noteq> CHR ''-'' \<and> c \<noteq> CHR ''.'' \<and> c \<noteq> CHR '':''
     \<and> c \<noteq> CHR ''/'' \<and> c \<noteq> CHR ''@'' \<and> c \<noteq> CHR ''!''"
  by (auto simp: isAlphanumeric_def)

lemma loop_step:
  assumes "i < length s"
  shows "isValidPart_loop kind s i = (okAt kind i (s ! i) \<and> isValidPart_loop kind s (Suc i))"
proof (cases "okAt kind i (s ! i)")
  case True
  then have "rune_width (drop i s) = 1"
    using assms okAt_ascii rune_width_ascii by blast
  with True assms show ?thesis
    by (subst isValidPart_loop.simps) (auto simp: okAt_def okRest_def isAlphanumeric_not_special)
next
  case False
  with assms show ?thesis
    by (subst isValidPart_loop.simps) (auto simp: okAt_def okRest_def)
qed

lemma loop_end: "length s \<le> i \<Longrightarrow> isValidPart_loop kind s i"
  by (subst isValidPart_loop.simps) simp

lemma loop_iff:
  "isValidPart_loop kind s i = (\<forall>j. i \<le> j \<and> j < length s \<longrightarrow> okAt kind j (s ! j))"
proof (induction "length s - i" arbitrary: i)
  case 0
  then have "length s \<le> i" by simp
  then show ?case by (auto simp: loop_end)
next
  case (Suc d)
  then have lt: "i < length s" and d: "d = length s - Suc i" by simp_all
  have "isValidPart_loop kind s i = (okAt kind i (s ! i) \<and> isValidPart_loop kind s (Suc i))"
    using lt by (rule loop_step)
  also have "\<dots> = (okAt kind i (s ! i) \<and> (\<forall>j. Suc i \<le> j \<and> j < length s \<longrightarrow> okAt kind j (s ! j)))"
    using Suc.hyps(1) [OF d] by simp
  also have "\<dots> = (\<forall>j. i \<le> j \<and> j < length s \<longrightarrow> okAt kind j (s ! j))"
  proof (intro iffI allI impI conjI)
    fix j
    assume a: "okAt kind i (s ! i) \<and> (\<forall>j. Suc i \<le> j \<and> j < length s \<longrightarrow> okAt kind j (s ! j))"
      and j: "i \<le> j \<and> j < length s"
    show "okAt kind j (s ! j)"
    proof (cases "j = i")
      case True
      with a show ?thesis by simp
    next
      case False
      with j have "Suc i \<le> j \<and> j < length s" by simp
      with a show ?thesis by blast
    qed
  next
    assume "\<forall>j. i \<le> j \<and> j < length s \<longrightarrow> okAt kind j (s ! j)"
    with lt show "okAt kind i (s ! i)" by simp
  next
    fix j
    assume "\<forall>j. i \<le> j \<and> j < length s \<longrightarrow> okAt kind j (s ! j)"
      and "Suc i \<le> j \<and> j < length s"
    then show "okAt kind j (s ! j)" by simp
  qed
  finally show ?case .
qed

lemma isValidPart_iff:
  "isValidPart kind s =
     (isValidLen kind s \<and> (\<exists>c cs. s = c # cs \<and> isAlphanumeric c \<and> (\<forall>x \<in> set cs. okRest kind x)))"
proof (cases s)
  case Nil
  then show ?thesis by (cases kind) (simp_all add: isValidPart_def)
next
  case (Cons c cs)
  have "(\<forall>j. j < length (c # cs) \<longrightarrow> okAt kind j ((c # cs) ! j))
        = (isAlphanumeric c \<and> (\<forall>j. j < length cs \<longrightarrow> okRest kind (cs ! j)))"
    by (simp add: All_less_Suc2 okAt_def)
  also have "\<dots> = (isAlphanumeric c \<and> (\<forall>x \<in> set cs. okRest kind x))"
    by (simp add: all_set_conv_all_nth)
  finally have "(\<forall>j. j < length (c # cs) \<longrightarrow> okAt kind j ((c # cs) ! j))
        = (isAlphanumeric c \<and> (\<forall>x \<in> set cs. okRest kind x))" .
  with Cons show ?thesis
    by (simp add: isValidPart_def loop_iff)
qed

lemma IsValid_iff:
  "IsValid n =
     ((model n \<noteq> [] \<or> rawDigest n \<noteq> [])
      \<and> (host n = [] \<or> isValidPart kindHost (host n))
      \<and> (namespace n = [] \<or> isValidPart kindNamespace (namespace n))
      \<and> (model n = [] \<or> isValidPart kindModel (model n))
      \<and> (tag n = [] \<or> isValidPart kindTag (tag n))
      \<and> (rawDigest n = [] \<or> isValidPart kindDigest (rawDigest n)))"
  by (auto simp: IsValid_def)

lemma MissingPart_invalid: "\<not> isValidPart kind MissingPart"
  by (simp add: isValidPart_iff MissingPart_def isAlphanumeric_def)

subsection \<open>The sentinel\<close>

text \<open>
  C7: \<open>MissingPart\<close> fails the part validator for every part kind, so a Name with a
  field equal to \<open>MissingPart\<close> is not valid.
\<close>

theorem C7_MissingPart_never_valid:
  "(\<forall>kind. \<not> isValidPart kind MissingPart)
   \<and> (\<forall>n. host n = MissingPart \<or> namespace n = MissingPart \<or> model n = MissingPart
            \<or> tag n = MissingPart \<or> rawDigest n = MissingPart \<longrightarrow> \<not> IsValid n)"
proof (intro conjI allI impI)
  fix kind
  show "\<not> isValidPart kind MissingPart" by (rule MissingPart_invalid)
next
  fix n :: Name
  assume "host n = MissingPart \<or> namespace n = MissingPart \<or> model n = MissingPart
            \<or> tag n = MissingPart \<or> rawDigest n = MissingPart"
  moreover have "MissingPart \<noteq> []" by (simp add: MissingPart_def)
  ultimately show "\<not> IsValid n"
    using MissingPart_invalid by (auto simp: IsValid_iff)
qed

theorem C7_MissingPart_never_valid_witness:
  "tag (zeroName\<lparr>model := ''mm'', tag := MissingPart\<rparr>) = MissingPart
   \<and> \<not> isValidPart kindTag MissingPart
   \<and> \<not> IsValid (zeroName\<lparr>model := ''mm'', tag := MissingPart\<rparr>)"
  using C7_MissingPart_never_valid by (simp add: zeroName_def)

subsection \<open>Validity and formatting\<close>

lemma valid_model_mm: "isValidPart kindModel ''mm''"
  by (simp add: isValidPart_iff isAlphanumeric_def okRest_def)

text \<open>
  C8: \<open>Name.String\<close> returns the empty string exactly for the Names that are not
  valid: a valid Name has a model or a digest, and either one is written out.
\<close>

theorem C8_String_empty_iff_invalid: "(Name_String n = []) = (\<not> IsValid n)"
proof (cases "IsValid n")
  case False
  then show ?thesis by (simp add: Name_String_def)
next
  case True
  then have "model n \<noteq> [] \<or> rawDigest n \<noteq> []" by (simp add: IsValid_iff)
  with True show ?thesis by (auto simp: Name_String_def Let_def)
qed

theorem C8_String_empty_iff_invalid_witness:
  "IsValid (zeroName\<lparr>model := ''mm''\<rparr>) \<and> Name_String (zeroName\<lparr>model := ''mm''\<rparr>) \<noteq> []"
  using C8_String_empty_iff_invalid [of "zeroName\<lparr>model := ''mm''\<rparr>"] valid_model_mm
  by (simp add: IsValid_iff zeroName_def)

lemma isValidPart_len: "isValidPart kind s \<Longrightarrow> length s \<le> 350"
  by (cases kind) (auto simp: isValidPart_def split: if_splits)

lemma isValidPart_hd: "isValidPart kind s \<Longrightarrow> s \<noteq> [] \<and> isAlphanumeric (hd s)"
  by (auto simp: isValidPart_iff)

lemma isValidPart_not_dotdot: "isValidPart kind s \<Longrightarrow> s \<noteq> ''..''"
  using isValidPart_hd [of kind s] isAlphanumeric_not_special [of "CHR ''.''"] by auto

text \<open>
  C5, as the code has it: no field of a valid Name is the string \<open>..\<close>, and no field is
  longer than 350 bytes. (A field may contain \<open>..\<close>: see the counterexample.)
\<close>

theorem C5_valid_fields_not_dotdot_and_bounded:
  assumes "IsValid n"
  shows "\<forall>part \<in> set [host n, namespace n, model n, tag n, rawDigest n].
           part \<noteq> ''..'' \<and> length part \<le> 350"
  using assms isValidPart_not_dotdot isValidPart_len
  by (auto simp: IsValid_iff)

theorem C5_valid_fields_not_dotdot_and_bounded_witness:
  "IsValid (zeroName\<lparr>model := ''mm''\<rparr>)
   \<and> model (zeroName\<lparr>model := ''mm''\<rparr>) \<noteq> ''..''
   \<and> length (model (zeroName\<lparr>model := ''mm''\<rparr>)) \<le> 350"
proof -
  have v: "IsValid (zeroName\<lparr>model := ''mm''\<rparr>)"
    using valid_model_mm by (simp add: IsValid_iff zeroName_def)
  from C5_valid_fields_not_dotdot_and_bounded [OF v] v show ?thesis
    by simp
qed

text \<open>
  The claim as stated fails: the model \<open>a..b\<close> is valid and contains \<open>..\<close>.
\<close>

theorem C5_dotdot_inside_counterexample:
  "IsValid (zeroName\<lparr>model := ''a..b''\<rparr>)
   \<and> Contains (model (zeroName\<lparr>model := ''a..b''\<rparr>)) ''..''"
  by (simp add: IsValid_iff zeroName_def isValidPart_iff isAlphanumeric_def okRest_def
        Contains_def LastIndex_def numeral_2_eq_2)

text \<open>
  C4: \<open>IsValidShort\<close> and \<open>IsValid\<close> on the Name with only namespace and model differ
  when the namespace is empty: \<open>IsValid\<close> skips an empty part, \<open>IsValidShort\<close> validates it.
\<close>

theorem C4_IsValidShort_empty_namespace:
  "IsValidShort [] ''mm'' = False
   \<and> IsValid \<lparr>host = [], namespace = [], model = ''mm'', tag = [], rawDigest = []\<rparr> = True"
  by (simp add: IsValidShort_def IsValid_iff isValidPart_iff isAlphanumeric_def okRest_def)

theorem C4_IsValidShort_empty_namespace_witness:
  "IsValidShort [] ''mm''
     \<noteq> IsValid \<lparr>host = [], namespace = [], model = ''mm'', tag = [], rawDigest = []\<rparr>"
  using C4_IsValidShort_empty_namespace by simp

lemma IsValidShort_iff:
  "IsValidShort ns m =
     (ns \<noteq> [] \<and> IsValid \<lparr>host = [], namespace = ns, model = m, tag = [], rawDigest = []\<rparr>)"
  using isValidPart_hd by (auto simp: IsValidShort_def IsValid_iff)

subsection \<open>Cutting at a one-byte separator\<close>

lemma take1_drop_eq: "(take (Suc 0) (drop k s) = [c]) = (k < length s \<and> s ! k = c)"
proof (cases "k < length s")
  case True
  then show ?thesis by (simp add: Cons_nth_drop_Suc [symmetric])
next
  case False
  then show ?thesis by simp
qed

lemma LastIndex_from_char:
  "n < length s \<Longrightarrow>
     (LastIndex_from s [c] n = - 1 \<and> (\<forall>j \<le> n. s ! j \<noteq> c))
     \<or> (\<exists>k \<le> n. LastIndex_from s [c] n = int k \<and> s ! k = c
                  \<and> (\<forall>j. k < j \<and> j \<le> n \<longrightarrow> s ! j \<noteq> c))"
proof (induction n)
  case 0
  then show ?case
    using take1_drop_eq [of 0 s c] by auto
next
  case (Suc n)
  show ?case
  proof (cases "s ! Suc n = c")
    case True
    with Suc.prems have "LastIndex_from s [c] (Suc n) = int (Suc n)"
      by (simp add: take1_drop_eq)
    with True show ?thesis by auto
  next
    case False
    then have eq: "LastIndex_from s [c] (Suc n) = LastIndex_from s [c] n"
      by (simp add: take1_drop_eq)
    from Suc.prems have "n < length s" by simp
    from Suc.IH [OF this] show ?thesis
    proof (elim disjE conjE exE)
      assume "LastIndex_from s [c] n = - 1" and "\<forall>j\<le>n. s ! j \<noteq> c"
      with False eq show ?thesis by (auto simp: le_Suc_eq)
    next
      fix k
      assume "k \<le> n" "LastIndex_from s [c] n = int k" "s ! k = c"
        "\<forall>j. k < j \<and> j \<le> n \<longrightarrow> s ! j \<noteq> c"
      with False eq have "k \<le> Suc n \<and> LastIndex_from s [c] (Suc n) = int k \<and> s ! k = c
                  \<and> (\<forall>j. k < j \<and> j \<le> Suc n \<longrightarrow> s ! j \<noteq> c)"
        by (auto simp: le_Suc_eq)
      then show ?thesis by blast
    qed
  qed
qed

lemma LastIndex_char:
  "(LastIndex s [c] = - 1 \<and> c \<notin> set s)
   \<or> (\<exists>k < length s. LastIndex s [c] = int k \<and> s ! k = c \<and> c \<notin> set (drop (Suc k) s))"
proof (cases s)
  case Nil
  then show ?thesis by (simp add: LastIndex_def)
next
  case (Cons x xs)
  then have n: "length s - 1 < length s" and L: "LastIndex s [c] = LastIndex_from s [c] (length s - 1)"
    by (simp_all add: LastIndex_def)
  from LastIndex_from_char [OF n, of c] show ?thesis
  proof (elim disjE conjE exE)
    assume "LastIndex_from s [c] (length s - 1) = - 1" and a: "\<forall>j\<le>length s - 1. s ! j \<noteq> c"
    moreover have "c \<notin> set s"
    proof
      assume "c \<in> set s"
      then obtain j where "j < length s" "s ! j = c" by (auto simp: in_set_conv_nth)
      with a show False by (metis Suc_pred' less_Suc_eq_le n not_less_zero not_gr_zero)
    qed
    ultimately show ?thesis using L by simp
  next
    fix k
    assume k: "k \<le> length s - 1" "LastIndex_from s [c] (length s - 1) = int k" "s ! k = c"
      and a: "\<forall>j. k < j \<and> j \<le> length s - 1 \<longrightarrow> s ! j \<noteq> c"
    have "c \<notin> set (drop (Suc k) s)"
    proof
      assume "c \<in> set (drop (Suc k) s)"
      then obtain j where j: "j < length (drop (Suc k) s)" "drop (Suc k) s ! j = c"
        by (auto simp: in_set_conv_nth)
      then have "Suc k + j < length s" "s ! (Suc k + j) = c" by auto
      with a show False
        by (metis Suc_pred' add_Suc less_Suc_eq_le le_add1 less_Suc_eq_le n not_less_zero not_gr_zero le_imp_less_Suc)
    qed
    with k n L show ?thesis by auto
  qed
qed

lemma cutLast_cases:
  "(\<exists>b a. s = b @ c # a \<and> c \<notin> set a \<and> cutLast s [c] = (b, a, True))
   \<or> (c \<notin> set s \<and> cutLast s [c] = (s, [], False))"
  using LastIndex_char [of s c]
proof (elim disjE conjE exE)
  assume "LastIndex s [c] = - 1" "c \<notin> set s"
  then show ?thesis by (simp add: cutLast_def)
next
  fix k
  assume k: "k < length s" "LastIndex s [c] = int k" "s ! k = c" "c \<notin> set (drop (Suc k) s)"
  then have "cutLast s [c] = (take k s, drop (Suc k) s, True)"
    by (simp add: cutLast_def)
  moreover from k have "s = take k s @ c # drop (Suc k) s"
    using id_take_nth_drop [of k s] by simp
  ultimately show ?thesis using k by blast
qed

lemma split_last_unique:
  assumes "c \<notin> set a" "c \<notin> set a'" "b @ c # a = b' @ c # a'"
  shows "b = b' \<and> a = a'"
  using assms by (auto simp: append_eq_append_conv2 Cons_eq_append_conv append_eq_Cons_conv)

lemma cutLast_absent: "c \<notin> set s \<Longrightarrow> cutLast s [c] = (s, [], False)"
  using cutLast_cases [of s c] by auto

lemma cutLast_present: "c \<notin> set a \<Longrightarrow> cutLast (b @ c # a) [c] = (b, a, True)"
  using cutLast_cases [of "b @ c # a" c] split_last_unique [of c a _ b] by auto


subsection \<open>Parsing and formatting\<close>

lemma okRest_not_sep: "okRest kind c \<Longrightarrow> c \<noteq> CHR ''/'' \<and> c \<noteq> CHR ''@''"
  using isAlphanumeric_not_special [of c] by (auto simp: okRest_def)

lemma okRest_not_colon: "kind \<noteq> kindHost \<Longrightarrow> okRest kind c \<Longrightarrow> c \<noteq> CHR '':''"
  using isAlphanumeric_not_special [of c] by (auto simp: okRest_def)

lemma isValidPart_no_sep:
  assumes "isValidPart kind s"
  shows "CHR ''/'' \<notin> set s" and "CHR ''@'' \<notin> set s"
proof -
  from assms obtain c cs where s: "s = c # cs" "isAlphanumeric c" "\<forall>x \<in> set cs. okRest kind x"
    by (auto simp: isValidPart_iff)
  then show "CHR ''/'' \<notin> set s" and "CHR ''@'' \<notin> set s"
    using isAlphanumeric_not_special [of c] okRest_not_sep [of kind] by auto
qed

lemma isValidPart_no_colon:
  assumes "isValidPart kind s" "kind \<noteq> kindHost"
  shows "CHR '':'' \<notin> set s"
proof -
  from assms obtain c cs where s: "s = c # cs" "isAlphanumeric c" "\<forall>x \<in> set cs. okRest kind x"
    by (auto simp: isValidPart_iff)
  then show ?thesis
    using isAlphanumeric_not_special [of c] okRest_not_colon [OF assms(2)] by auto
qed

lemma MissingPart_props:
  "MissingPart \<noteq> []" "CHR ''/'' \<notin> set MissingPart" "CHR '':'' \<notin> set MissingPart"
  "CHR ''@'' \<notin> set MissingPart"
  by (simp_all add: MissingPart_def)

lemma cmp_Or_valid:
  "isValidPart kind (cmp_Or a MissingPart) \<Longrightarrow> a \<noteq> [] \<and> cmp_Or a MissingPart = a"
  using MissingPart_invalid [of kind] by (auto simp: cmp_Or_def)

lemma cmp_Or_nonempty: "cmp_Or a MissingPart \<noteq> []"
  by (simp add: cmp_Or_def MissingPart_props)

lemma cutPromised_cases:
  "(\<exists>b a. s = b @ c # a \<and> c \<notin> set a
          \<and> cutPromised s [c] = (cmp_Or b MissingPart, cmp_Or a MissingPart, True))
   \<or> (c \<notin> set s \<and> cutPromised s [c] = (s, [], False))"
  using cutLast_cases [of s c]
proof (elim disjE conjE exE)
  fix b a
  assume "s = b @ c # a" "c \<notin> set a" "cutLast s [c] = (b, a, True)"
  then have "s = b @ c # a \<and> c \<notin> set a
          \<and> cutPromised s [c] = (cmp_Or b MissingPart, cmp_Or a MissingPart, True)"
    by (simp add: cutPromised_def)
  then show ?thesis by blast
next
  assume "c \<notin> set s" "cutLast s [c] = (s, [], False)"
  then show ?thesis by (simp add: cutPromised_def)
qed

lemma cutPromised_absent: "c \<notin> set s \<Longrightarrow> cutPromised s [c] = (s, [], False)"
  by (simp add: cutPromised_def cutLast_absent)

lemma cutPromised_present:
  "c \<notin> set a \<Longrightarrow> b \<noteq> [] \<Longrightarrow> a \<noteq> [] \<Longrightarrow> cutPromised (b @ c # a) [c] = (b, a, True)"
  by (simp add: cutPromised_def cutLast_present cmp_Or_def)

text \<open>The three shapes of a parse result.\<close>

lemma ParseNameNoDefaults_unfold:
  assumes "cutLast s ''@'' = (s1, rd, p1)" "cutPromised s1 '':'' = (s2, tg, p2)"
    "cutPromised s2 ''/'' = (s3, m, p3)" "cutPromised s3 ''/'' = (s4, ns, p4)"
  shows "ParseNameNoDefaults s =
     (if \<not> p3 then
        \<lparr>host = [], namespace = [], model = s3, tag = tg,
         rawDigest = (if p1 \<and> rd = [] then MissingPart else rd)\<rparr>
      else if \<not> p4 then
        \<lparr>host = [], namespace = s4, model = m, tag = tg,
         rawDigest = (if p1 \<and> rd = [] then MissingPart else rd)\<rparr>
      else
        \<lparr>host = s4, namespace = ns, model = m, tag = tg,
         rawDigest = (if p1 \<and> rd = [] then MissingPart else rd)\<rparr>)"
  using assms by (simp add: ParseNameNoDefaults_def zeroName_def Let_def)

lemma Name_String_valid:
  "IsValid n \<Longrightarrow>
   Name_String n =
     (if host n = [] then [] else host n @ ''/'')
     @ (if namespace n = [] then [] else namespace n @ ''/'')
     @ model n
     @ (if tag n = [] then [] else CHR '':'' # tag n)
     @ (if rawDigest n = [] then [] else CHR ''@'' # rawDigest n)"
  by (simp add: Name_String_def Let_def)

lemma cmp_Or_cases: "cmp_Or b MissingPart = b \<or> (b = [] \<and> cmp_Or b MissingPart = MissingPart)"
  by (simp add: cmp_Or_def)

text \<open>
  C1: when the Name parsed from \<open>s\<close> is valid, formatting it gives \<open>s\<close> back.
\<close>

theorem C1_String_of_parse:
  assumes v: "IsValid (ParseNameNoDefaults s)"
  shows "Name_String (ParseNameNoDefaults s) = s"
proof -
  obtain s1 rd p1 where c1: "cutLast s ''@'' = (s1, rd, p1)" using prod_cases3 by blast
  obtain s2 tg p2 where c2: "cutPromised s1 '':'' = (s2, tg, p2)" using prod_cases3 by blast
  obtain s3 m p3 where c3: "cutPromised s2 ''/'' = (s3, m, p3)" using prod_cases3 by blast
  obtain s4 ns p4 where c4: "cutPromised s3 ''/'' = (s4, ns, p4)" using prod_cases3 by blast
  define RD where "RD = (if p1 \<and> rd = [] then MissingPart else rd)"
  define T where "T = (if tg = [] then [] else CHR '':'' # tg)"
  define D where "D = (if RD = [] then [] else CHR ''@'' # RD)"
  let ?n = "ParseNameNoDefaults s"
  note n = ParseNameNoDefaults_unfold [OF c1 c2 c3 c4, folded RD_def]
  have rdn: "rawDigest ?n = RD" and tgn: "tag ?n = tg" by (simp_all add: n)
  from v rdn have vRD: "RD = [] \<or> isValidPart kindDigest RD" by (simp add: IsValid_iff)
  from v tgn have vtg: "tg = [] \<or> isValidPart kindTag tg" by (simp add: IsValid_iff)
  have A: "s = s1 @ D"
    using cutLast_cases [of s "CHR ''@''"] c1 vRD MissingPart_invalid [of kindDigest]
    unfolding RD_def D_def by (auto simp: MissingPart_props split: if_splits)
  have B: "\<exists>b2. s1 = b2 @ T \<and> (s2 = b2 \<or> s2 = MissingPart)"
    using cutPromised_cases [of s1 "CHR '':''"]
  proof (elim disjE conjE exE)
    fix b a
    assume h: "s1 = b @ CHR '':'' # a"
      "cutPromised s1 '':'' = (cmp_Or b MissingPart, cmp_Or a MissingPart, True)"
    with c2 have e: "s2 = cmp_Or b MissingPart" "tg = cmp_Or a MissingPart" by simp_all
    with vtg cmp_Or_nonempty have "isValidPart kindTag (cmp_Or a MissingPart)" by auto
    then have "a \<noteq> []" "tg = a" using cmp_Or_valid e by auto
    with h e cmp_Or_cases [of b] show ?thesis by (auto simp: T_def)
  next
    assume "cutPromised s1 '':'' = (s1, [], False)"
    with c2 show ?thesis by (simp add: T_def)
  qed
  then obtain b2 where b2: "s1 = b2 @ T" "s2 = b2 \<or> s2 = MissingPart" by blast
  show ?thesis
  proof (cases p3)
    case False
    with n have nn: "?n = \<lparr>host = [], namespace = [], model = s3, tag = tg, rawDigest = RD\<rparr>"
      by simp
    from c3 False cutPromised_cases [of s2 "CHR ''/''"] have "s3 = s2" by auto
    moreover from v nn have "s3 = [] \<or> isValidPart kindModel s3" by (simp add: IsValid_iff)
    ultimately have "s2 = b2"
      using b2 MissingPart_invalid [of kindModel] MissingPart_props(1) by auto
    with \<open>s3 = s2\<close> have "Name_String ?n = b2 @ T @ D"
      using Name_String_valid [OF v] nn by (simp add: T_def D_def)
    with A b2 show ?thesis by simp
  next
    case True
    with c3 cutPromised_cases [of s2 "CHR ''/''"]
    obtain b a where ba: "s2 = b @ CHR ''/'' # a" "s3 = cmp_Or b MissingPart"
      "m = cmp_Or a MissingPart" by auto
    from ba(1) have "CHR ''/'' \<in> set s2" by simp
    with b2 MissingPart_props(2) have s2: "s2 = b2" by auto
    from n True have mn: "model ?n = m" by simp
    with v have "m = [] \<or> isValidPart kindModel m" by (simp add: IsValid_iff)
    with ba(3) cmp_Or_nonempty have "isValidPart kindModel (cmp_Or a MissingPart)" by auto
    with ba(3) cmp_Or_valid have m: "m = a" "a \<noteq> []" by auto
    show ?thesis
    proof (cases p4)
      case False
      with n True have nn: "?n = \<lparr>host = [], namespace = s4, model = m, tag = tg, rawDigest = RD\<rparr>"
        by simp
      from c4 False cutPromised_cases [of s3 "CHR ''/''"] have "s4 = s3" by auto
      moreover from v nn have "s4 = [] \<or> isValidPart kindNamespace s4" by (simp add: IsValid_iff)
      ultimately have "isValidPart kindNamespace (cmp_Or b MissingPart)"
        using ba(2) cmp_Or_nonempty by auto
      with cmp_Or_valid ba(2) \<open>s4 = s3\<close> have "s4 = b" "b \<noteq> []" by auto
      then have "Name_String ?n = b @ CHR ''/'' # a @ T @ D"
        using Name_String_valid [OF v] nn m by (simp add: T_def D_def)
      moreover from ba(1) s2 have "b2 = b @ CHR ''/'' # a" by simp
      with A b2(1) have "s = b @ CHR ''/'' # a @ T @ D" by simp
      ultimately show ?thesis by simp
    next
      case p4: True
      with n True have nn: "?n = \<lparr>host = s4, namespace = ns, model = m, tag = tg, rawDigest = RD\<rparr>"
        by simp
      from c4 p4 cutPromised_cases [of s3 "CHR ''/''"]
      obtain b' a' where ba': "s3 = b' @ CHR ''/'' # a'" "s4 = cmp_Or b' MissingPart"
        "ns = cmp_Or a' MissingPart" by auto
      from ba'(1) have "CHR ''/'' \<in> set s3" by simp
      with ba(2) cmp_Or_cases [of b] MissingPart_props(2) have s3: "s3 = b" by auto
      from v nn have "s4 = [] \<or> isValidPart kindHost s4" "ns = [] \<or> isValidPart kindNamespace ns"
        by (simp_all add: IsValid_iff)
      with ba' cmp_Or_nonempty have "isValidPart kindHost (cmp_Or b' MissingPart)"
        "isValidPart kindNamespace (cmp_Or a' MissingPart)" by auto
      with cmp_Or_valid ba' have hn: "s4 = b'" "b' \<noteq> []" "ns = a'" "a' \<noteq> []" by auto
      then have "Name_String ?n = b' @ CHR ''/'' # a' @ CHR ''/'' # a @ T @ D"
        using Name_String_valid [OF v] nn m by (simp add: T_def D_def)
      moreover from s3 ba'(1) have "b = b' @ CHR ''/'' # a'" by simp
      with ba(1) s2 have "b2 = b' @ CHR ''/'' # a' @ CHR ''/'' # a" by simp
      with A b2(1) have "s = b' @ CHR ''/'' # a' @ CHR ''/'' # a @ T @ D" by simp
      ultimately show ?thesis by simp
    qed
  qed
qed

theorem C1_String_of_parse_witness:
  "IsValid (ParseNameNoDefaults ''host:https/namespace/model:tag@dd'')
   \<and> Name_String (ParseNameNoDefaults ''host:https/namespace/model:tag@dd'')
       = ''host:https/namespace/model:tag@dd''"
proof -
  have v: "IsValid (ParseNameNoDefaults ''host:https/namespace/model:tag@dd'')"
    by code_simp
  from C1_String_of_parse [OF v] v show ?thesis by simp
qed

lemma parse_has_parser_shape: "parser_shape (ParseNameNoDefaults s)"
proof -
  obtain s1 rd p1 where c1: "cutLast s ''@'' = (s1, rd, p1)" using prod_cases3 by blast
  obtain s2 tg p2 where c2: "cutPromised s1 '':'' = (s2, tg, p2)" using prod_cases3 by blast
  obtain s3 m p3 where c3: "cutPromised s2 ''/'' = (s3, m, p3)" using prod_cases3 by blast
  obtain s4 ns p4 where c4: "cutPromised s3 ''/'' = (s4, ns, p4)" using prod_cases3 by blast
  note n = ParseNameNoDefaults_unfold [OF c1 c2 c3 c4]
  have tg_empty: "tg = [] \<Longrightarrow> CHR '':'' \<notin> set s2 \<and> s2 = s1"
    using cutPromised_cases [of s1 "CHR '':''"] c2 cmp_Or_nonempty cmp_Or_nonempty [THEN not_sym]
    by auto
  have s2_empty: "s2 = [] \<Longrightarrow> tg = []"
    using cutPromised_cases [of s1 "CHR '':''"] c2 cmp_Or_nonempty cmp_Or_nonempty [THEN not_sym]
    by auto
  show ?thesis
  proof (cases p3)
    case False
    from c3 False cutPromised_cases [of s2 "CHR ''/''"] have "s3 = s2" by auto
    with False n s2_empty show ?thesis by (simp add: parser_shape_def)
  next
    case True
    with c3 cutPromised_cases [of s2 "CHR ''/''"]
    obtain b a where ba: "s2 = b @ CHR ''/'' # a" "s3 = cmp_Or b MissingPart"
      "m = cmp_Or a MissingPart" by auto
    then have m: "m \<noteq> []" using cmp_Or_nonempty by simp
    show ?thesis
    proof (cases p4)
      case False
      with True n m show ?thesis by (simp add: parser_shape_def)
    next
      case p4: True
      with c4 cutPromised_cases [of s3 "CHR ''/''"]
      obtain b' a' where ba': "s3 = b' @ CHR ''/'' # a'" "s4 = cmp_Or b' MissingPart"
        "ns = cmp_Or a' MissingPart" by auto
      then have ns: "ns \<noteq> []" using cmp_Or_nonempty by simp
      have "tg \<noteq> []" if col: "CHR '':'' \<in> set s4"
      proof
        assume "tg = []"
        then have no: "CHR '':'' \<notin> set s2" by (rule tg_empty [THEN conjunct1])
        from col ba'(2) cmp_Or_cases [of b'] MissingPart_props(3) have "CHR '':'' \<in> set b'"
          by auto
        with ba'(1) have "CHR '':'' \<in> set s3" by simp
        with ba(2) cmp_Or_cases [of b] MissingPart_props(3) have "CHR '':'' \<in> set b" by auto
        with ba(1) have "CHR '':'' \<in> set s2" by simp
        with no show False by simp
      qed
      with True p4 n m ns show ?thesis by (auto simp: parser_shape_def)
    qed
  qed
qed

lemma valid_field_no_sep:
  assumes "f = [] \<or> isValidPart kind f"
  shows "CHR ''/'' \<notin> set f" "CHR ''@'' \<notin> set f"
  using assms isValidPart_no_sep [of kind f] by auto

lemma valid_field_no_colon:
  assumes "f = [] \<or> isValidPart kind f" "kind \<noteq> kindHost"
  shows "CHR '':'' \<notin> set f"
  using assms isValidPart_no_colon [of kind f] by auto

lemma parse_of_String:
  assumes v: "IsValid n" and sh: "parser_shape n"
  shows "ParseNameNoDefaults (Name_String n) = n"
proof -
  define H where "H = (if host n = [] then [] else host n @ ''/'')"
  define N where "N = (if namespace n = [] then [] else namespace n @ ''/'')"
  define T where "T = (if tag n = [] then [] else CHR '':'' # tag n)"
  define D where "D = (if rawDigest n = [] then [] else CHR ''@'' # rawDigest n)"
  have S: "Name_String n = H @ N @ model n @ T @ D"
    using Name_String_valid [OF v] by (simp add: H_def N_def T_def D_def)
  from v have vh: "host n = [] \<or> isValidPart kindHost (host n)"
    and vn: "namespace n = [] \<or> isValidPart kindNamespace (namespace n)"
    and vm: "model n = [] \<or> isValidPart kindModel (model n)"
    and vt: "tag n = [] \<or> isValidPart kindTag (tag n)"
    and vd: "rawDigest n = [] \<or> isValidPart kindDigest (rawDigest n)"
    by (simp_all add: IsValid_iff)
  note nosep = valid_field_no_sep [OF vh] valid_field_no_sep [OF vn] valid_field_no_sep [OF vm]
    valid_field_no_sep [OF vt] valid_field_no_sep [OF vd]
  note nocol = valid_field_no_colon [OF vn] valid_field_no_colon [OF vm]
  from sh have sh1: "model n = [] \<Longrightarrow> host n = [] \<and> namespace n = [] \<and> tag n = []"
    and sh2: "host n \<noteq> [] \<Longrightarrow> namespace n \<noteq> []"
    and sh3: "CHR '':'' \<in> set (host n) \<Longrightarrow> tag n \<noteq> []"
    by (simp_all add: parser_shape_def)
  \<comment> \<open>the digest cut\<close>
  have "CHR ''@'' \<notin> set (H @ N @ model n @ T)"
    using nosep by (simp add: H_def N_def T_def)
  then have c1: "cutLast (Name_String n) ''@'' = (H @ N @ model n @ T, rawDigest n, rawDigest n \<noteq> [])"
  proof (cases "rawDigest n = []")
    case True
    with \<open>CHR ''@'' \<notin> set (H @ N @ model n @ T)\<close> show ?thesis
      using cutLast_absent [of "CHR ''@''" "H @ N @ model n @ T"] by (simp add: S D_def)
  next
    case False
    then show ?thesis
      using cutLast_present [of "CHR ''@''" "rawDigest n" "H @ N @ model n @ T"] nosep
      by (simp add: S D_def)
  qed
  \<comment> \<open>the tag cut\<close>
  have c2: "cutPromised (H @ N @ model n @ T) '':'' = (H @ N @ model n, tag n, tag n \<noteq> [])"
  proof (cases "tag n = []")
    case True
    with sh3 have "CHR '':'' \<notin> set (host n)" by auto
    with nocol have "CHR '':'' \<notin> set (H @ N @ model n)" by (simp add: H_def N_def)
    with True show ?thesis
      using cutPromised_absent [of "CHR '':''" "H @ N @ model n"] by (simp add: T_def)
  next
    case False
    with sh1 have "model n \<noteq> []" by auto
    with False show ?thesis
      using cutPromised_present [of "CHR '':''" "tag n" "H @ N @ model n"]
        valid_field_no_colon [OF vt]
      by (simp add: T_def)
  qed
  show ?thesis
  proof (cases "namespace n = []")
    case True
    with sh2 have h: "host n = []" by auto
    with True have c3: "cutPromised (H @ N @ model n) ''/'' = (model n, [], False)"
      using cutPromised_absent [of "CHR ''/''" "model n"] nosep by (simp add: H_def N_def)
    obtain s4 ns p4 where c4: "cutPromised (model n) ''/'' = (s4, ns, p4)"
      using prod_cases3 by blast
    from ParseNameNoDefaults_unfold [OF c1 c2 c3 c4] True h show ?thesis by simp
  next
    case False
    with sh1 have m: "model n \<noteq> []" by auto
    have "H @ N @ model n = (H @ namespace n) @ CHR ''/'' # model n"
      using False by (simp add: N_def)
    with False m have c3: "cutPromised (H @ N @ model n) ''/'' = (H @ namespace n, model n, True)"
      using cutPromised_present [of "CHR ''/''" "model n" "H @ namespace n"] nosep by simp
    show ?thesis
    proof (cases "host n = []")
      case True
      then have c4: "cutPromised (H @ namespace n) ''/'' = (namespace n, [], False)"
        using cutPromised_absent [of "CHR ''/''" "namespace n"] nosep by (simp add: H_def)
      from ParseNameNoDefaults_unfold [OF c1 c2 c3 c4] True show ?thesis by simp
    next
      case h: False
      with False have c4: "cutPromised (H @ namespace n) ''/'' = (host n, namespace n, True)"
        using cutPromised_present [of "CHR ''/''" "namespace n" "host n"] nosep
        by (simp add: H_def)
      from ParseNameNoDefaults_unfold [OF c1 c2 c3 c4] show ?thesis by simp
    qed
  qed
qed

text \<open>
  C2, as the code has it: for a valid Name, parsing its string gives the Name back
  exactly when the Name has the shape of a parser result; every result of
  \<open>ParseNameNoDefaults\<close> has that shape (\<open>parse_has_parser_shape\<close>).
\<close>

theorem C2_parse_of_String_iff_shape:
  "IsValid n \<Longrightarrow> (ParseNameNoDefaults (Name_String n) = n) = parser_shape n"
proof
  assume "IsValid n" and "ParseNameNoDefaults (Name_String n) = n"
  then show "parser_shape n"
    using parse_has_parser_shape [of "Name_String n"] by simp
next
  assume "IsValid n" and "parser_shape n"
  then show "ParseNameNoDefaults (Name_String n) = n" by (rule parse_of_String)
qed

theorem C2_parse_of_String_iff_shape_witness:
  "IsValid \<lparr>host = ''h:80'', namespace = ''nn'', model = ''mm'', tag = ''t'', rawDigest = ''dd''\<rparr>
   \<and> ParseNameNoDefaults (Name_String
        \<lparr>host = ''h:80'', namespace = ''nn'', model = ''mm'', tag = ''t'', rawDigest = ''dd''\<rparr>)
       = \<lparr>host = ''h:80'', namespace = ''nn'', model = ''mm'', tag = ''t'', rawDigest = ''dd''\<rparr>"
proof -
  let ?n = "\<lparr>host = ''h:80'', namespace = ''nn'', model = ''mm'', tag = ''t'', rawDigest = ''dd''\<rparr>"
  have v: "IsValid ?n" by code_simp
  have sh: "parser_shape ?n" by (simp add: parser_shape_def)
  from C2_parse_of_String_iff_shape [OF v] v sh show ?thesis by simp
qed

text \<open>
  The claim for every valid Name fails: a host without a namespace is read back as a
  namespace.
\<close>

theorem C2_host_without_namespace_counterexample:
  "IsValid \<lparr>host = ''hh'', namespace = [], model = ''mm'', tag = [], rawDigest = []\<rparr>
   \<and> ParseNameNoDefaults (Name_String
        \<lparr>host = ''hh'', namespace = [], model = ''mm'', tag = [], rawDigest = []\<rparr>)
       = \<lparr>host = [], namespace = ''hh'', model = ''mm'', tag = [], rawDigest = []\<rparr>
   \<and> ParseNameNoDefaults (Name_String
        \<lparr>host = ''hh'', namespace = [], model = ''mm'', tag = [], rawDigest = []\<rparr>)
       \<noteq> \<lparr>host = ''hh'', namespace = [], model = ''mm'', tag = [], rawDigest = []\<rparr>"
  by code_simp

subsection \<open>Hexadecimal decoding and encoding\<close>

lemma reverseHexTable_zero: "(reverseHexTable p = 0) = (p = CHR ''0'')"
  by (simp add: reverseHexTable_def)

lemma reverseHexTable_high_zero:
  "reverseHexTable p \<le> 0x0f \<Longrightarrow> (push_bit 4 (reverseHexTable p) = 0) = (p = CHR ''0'')"
  by (simp add: reverseHexTable_def split: if_splits)

lemma hex_byte_zero:
  "reverseHexTable p \<le> 0x0f \<Longrightarrow>
   (push_bit 4 (reverseHexTable p) OR reverseHexTable q = 0) = (p = CHR ''0'' \<and> q = CHR ''0'')"
  by (simp add: or_eq_0_iff reverseHexTable_high_zero reverseHexTable_zero)

lemma length_hex_bytes: "length (hex_bytes src) = length src div 2"
  by (induction src rule: hex_bytes.induct) simp_all

lemma hex_bytes_zero:
  "\<forall>c \<in> set src. reverseHexTable c \<le> 0x0f \<Longrightarrow> even (length src) \<Longrightarrow>
   (hex_bytes src = replicate (length src div 2) 0) = (src = replicate (length src) CHR ''0'')"
  by (induction src rule: hex_bytes.induct) (simp_all add: hex_byte_zero)

lemma Decode_loop_hex:
  "\<forall>c \<in> set src. reverseHexTable c \<le> 0x0f \<Longrightarrow> even (length src) \<Longrightarrow>
   i + length src div 2 \<le> length dst \<Longrightarrow>
   Decode_loop dst i src
     = Inr (take i dst @ hex_bytes src @ drop (i + length src div 2) dst,
            i + length src div 2, None)"
proof (induction dst i src rule: Decode_loop.induct)
  case (1 dst i p q rest)
  let ?v = "push_bit 4 (reverseHexTable p) OR reverseHexTable q"
  from "1.prems" have i: "i < length dst" by simp
  from "1.prems" have hex: "\<not> reverseHexTable p > 0x0f" "\<not> reverseHexTable q > 0x0f"
    by (simp_all add: not_less)
  have "Decode_loop dst i (p # q # rest) = Decode_loop (dst[i := ?v]) (Suc i) rest"
    using hex i by (simp add: Let_def)
  also have "\<dots> = Inr (take (Suc i) (dst[i := ?v]) @ hex_bytes rest
                          @ drop (Suc i + length rest div 2) (dst[i := ?v]),
                        Suc i + length rest div 2, None)"
    using "1.prems" hex i by (intro "1.IH") (simp_all add: not_less)
  also have "take (Suc i) (dst[i := ?v]) = take i dst @ [?v]"
    using i by (simp add: take_Suc_conv_app_nth)
  also have "drop (Suc i + length rest div 2) (dst[i := ?v]) = drop (Suc i + length rest div 2) dst"
    by simp
  finally show ?case by simp
next
  case (2 dst i p)
  then show ?case by simp
next
  case (3 dst i)
  then show ?case by simp
qed

lemma Decode_loop_Inr_None:
  "Decode_loop dst i src = Inr (h, n, None) \<Longrightarrow> i \<le> length dst \<Longrightarrow>
     (\<forall>c \<in> set src. reverseHexTable c \<le> 0x0f) \<and> even (length src) \<and> n = i + length src div 2
     \<and> n \<le> length dst \<and> length h = length dst"
proof (induction dst i src rule: Decode_loop.induct)
  case (1 dst i p q rest)
  then show ?case by (auto simp: Let_def not_less split: if_splits)
next
  case (2 dst i p)
  then show ?case by (simp split: if_splits)
next
  case (3 dst i)
  then show ?case by simp
qed

lemma Decode_loop_panic:
  "Decode_loop dst i src = Inl e \<Longrightarrow> length dst < i + length src div 2"
proof (induction dst i src rule: Decode_loop.induct)
  case (1 dst i p q rest)
  then show ?case by (auto simp: Let_def not_less split: if_splits)
next
  case (2 dst i p)
  then show ?case by (simp split: if_splits)
next
  case (3 dst i)
  then show ?case by simp
qed

lemma isHexDigit_iff: "isHexDigit c = (reverseHexTable c \<le> 0x0f)"
  by (simp add: isHexDigit_def reverseHexTable_def)

lemma isHexDigit_not_sep: "isHexDigit c \<Longrightarrow> c \<noteq> CHR ''@'' \<and> c \<noteq> CHR '':'' \<and> c \<noteq> CHR ''-''"
  by (auto simp: isHexDigit_def)

lemma ParseDigest_unfold:
  assumes "(case cutLast s '':'' of (typ, hash, ok) \<Rightarrow>
              if \<not> ok then cutLast s ''-'' else (typ, hash, ok)) = (typ, hash, ok)"
  shows "ParseDigest s =
     (if \<not> ok then Inr zeroDigest
      else if typ \<noteq> ''sha256'' then Inr zeroDigest
      else
        (case Decode zeroHash hash of
           Inl e \<Rightarrow> Inl e
         | Inr (h, n, err) \<Rightarrow>
             if err \<noteq> None \<or> n \<noteq> 32 then Inr zeroDigest
             else Inr \<lparr>Type = DigestTypeSHA256, Hash = h\<rparr>))"
proof -
  obtain t0 h0 ok0 where c0: "cutLast s '':'' = (t0, h0, ok0)"
    using prod_cases3 by blast
  with assms have c1: "(if \<not> ok0 then cutLast s ''-'' else (t0, h0, ok0)) = (typ, hash, ok)"
    by simp
  have "Hash zeroDigest = zeroHash" by (simp add: zeroDigest_def)
  then show ?thesis
    by (simp only: ParseDigest_def c0 prod.case c1)
qed

lemma ParseDigest_cut:
  assumes "(case cutLast s '':'' of (typ, hash, ok) \<Rightarrow>
              if \<not> ok then cutLast s ''-'' else (typ, hash, ok)) = (typ, hash, ok)" "ok"
  shows "s = typ @ CHR '':'' # hash \<or> s = typ @ CHR ''-'' # hash"
  using assms cutLast_cases [of s "CHR '':''"] cutLast_cases [of s "CHR ''-''"]
  by (auto split: prod.splits if_splits)

lemma length_zeroHash: "length zeroHash = 32"
  by (simp add: zeroHash_def)

text \<open>What a returned digest is.\<close>

lemma ParseDigest_result:
  assumes "ParseDigest s = Inr d"
  shows "d = zeroDigest
         \<or> (Type d = DigestTypeSHA256 \<and> length (Hash d) = 32
            \<and> (\<exists>hash. (s = ''sha256:'' @ hash \<or> s = ''sha256-'' @ hash) \<and> length hash = 64
                       \<and> (\<forall>c \<in> set hash. isHexDigit c) \<and> Hash d = hex_bytes hash))"
proof -
  obtain ty hash ok where c: "(case cutLast s '':'' of (t0, h0, ok0) \<Rightarrow>
              if \<not> ok0 then cutLast s ''-'' else (t0, h0, ok0)) = (ty, hash, ok)"
    using prod_cases3 by blast
  note PD = ParseDigest_unfold [OF c]
  show ?thesis
  proof (cases "d = zeroDigest")
    case True
    then show ?thesis by simp
  next
    case False
    with assms PD have ok: ok and ty: "ty = ''sha256''"
      by (auto split: if_splits)
    with assms PD False obtain h where
      dec: "Decode zeroHash hash = Inr (h, 32, None)" and d: "d = \<lparr>Type = DigestTypeSHA256, Hash = h\<rparr>"
      by (auto split: sum.splits prod.splits if_splits)
    from dec have *: "(\<forall>c \<in> set hash. reverseHexTable c \<le> 0x0f) \<and> even (length hash)
        \<and> 32 = 0 + length hash div 2 \<and> 32 \<le> length zeroHash \<and> length h = length zeroHash"
      unfolding Decode_def by (rule Decode_loop_Inr_None) simp
    then have "even (length hash)" "length hash div 2 = 32" by simp_all
    then have len: "length hash = 64" by presburger
    from * dec have "h = hex_bytes hash"
      using Decode_loop_hex [of hash 0 zeroHash] length_hex_bytes [of hash]
      by (simp add: Decode_def length_zeroHash)
    with * len d ParseDigest_cut [OF c ok] ty show ?thesis
      by (auto simp: isHexDigit_iff length_zeroHash)
  qed
qed

lemma ParseDigest_panic_only_long:
  assumes "ParseDigest s = Inl e"
  shows "73 \<le> length s"
proof -
  obtain ty hash ok where c: "(case cutLast s '':'' of (t0, h0, ok0) \<Rightarrow>
              if \<not> ok0 then cutLast s ''-'' else (t0, h0, ok0)) = (ty, hash, ok)"
    using prod_cases3 by blast
  note PD = ParseDigest_unfold [OF c]
  from assms PD have ok: ok and ty: "ty = ''sha256''" and dec: "Decode zeroHash hash = Inl e"
    by (auto split: if_splits sum.splits prod.splits)
  from dec have "length zeroHash < 0 + length hash div 2"
    unfolding Decode_def by (rule Decode_loop_panic)
  then have "66 \<le> length hash" by (simp add: length_zeroHash)
  with ParseDigest_cut [OF c ok] ty show ?thesis by auto
qed

lemma length_Encode: "length (Encode h) = 2 * length h"
  by (induction h) simp_all

lemma hextable_zero: "n < 16 \<Longrightarrow> (hextable ! n = CHR ''0'') = (n = 0)"
proof -
  assume n: "n < 16"
  have d: "distinct hextable" and z: "hextable ! 0 = CHR ''0''" and l: "length hextable = 16"
    by (simp_all add: hextable_def)
  from n l have "(hextable ! n = hextable ! 0) = (n = 0)"
    by (intro nth_eq_iff_index_eq [OF d]) simp_all
  with z show ?thesis by simp
qed

lemma high_nibble_bound: "unat (drop_bit 4 (v :: 8 word)) < 16"
proof -
  have "unat (drop_bit 4 v) = drop_bit 4 (unat v)" by (simp add: unat_drop_bit_eq)
  also have "\<dots> = unat v div 2 ^ 4" by (simp only: drop_bit_eq_div)
  finally have "unat (drop_bit 4 v) = unat v div 2 ^ 4" .
  moreover have "unat v < 2 ^ 8" using unsigned_less [of v] by simp
  ultimately show ?thesis by simp
qed

lemma low_nibble_bound: "unat ((v :: 8 word) AND 0x0f) < 16"
proof -
  have "v AND 0x0f \<le> 0x0f" by (rule word_and_le1)
  then have "unat (v AND 0x0f) \<le> unat (0x0f :: 8 word)" by (simp only: word_le_nat_alt)
  then show ?thesis by simp
qed

lemma nibbles_zero: "(drop_bit 4 v = 0 \<and> v AND 0x0f = 0) = ((v :: 8 word) = 0)"
proof
  assume a: "drop_bit 4 v = 0 \<and> v AND 0x0f = 0"
  have "v AND 0x0f = take_bit 4 v" by (simp add: take_bit_eq_mask mask_eq_exp_minus_1)
  with a have "push_bit 4 (drop_bit 4 v) + take_bit 4 v = 0" by simp
  then show "v = 0" by (simp only: bits_ident)
next
  assume "v = 0"
  then show "drop_bit 4 v = 0 \<and> v AND 0x0f = 0" by simp
qed

lemma Encode_byte_zero:
  "(hextable ! unat (drop_bit 4 v) = CHR ''0'' \<and> hextable ! unat (v AND 0x0f) = CHR ''0'')
     = ((v :: 8 word) = 0)"
  using hextable_zero [OF high_nibble_bound [of v]] hextable_zero [OF low_nibble_bound [of v]]
    nibbles_zero [of v]
  by (simp add: unat_eq_0)

lemma Encode_zero:
  "(Encode h = replicate (2 * length h) CHR ''0'') = (h = replicate (length h) 0)"
proof (induction h)
  case Nil
  then show ?case by simp
next
  case (Cons v vs)
  have "(Encode (v # vs) = replicate (2 * length (v # vs)) CHR ''0'')
        = ((hextable ! unat (drop_bit 4 v) = CHR ''0'' \<and> hextable ! unat (v AND 0x0f) = CHR ''0'')
           \<and> Encode vs = replicate (2 * length vs) CHR ''0'')"
    by auto
  with Cons Encode_byte_zero [of v] show ?case by simp
qed

lemma Encode_zeroHash: "(Encode h = replicate 64 CHR ''0'') = (h = zeroHash)"
proof (cases "length h = 32")
  case True
  with Encode_zero [of h] show ?thesis by (simp add: zeroHash_def)
next
  case False
  then have "length (Encode h) \<noteq> 64" by (simp add: length_Encode)
  with False show ?thesis by (auto simp: zeroHash_def)
qed

subsection \<open>Digests\<close>

text \<open>
  C3: \<open>ParseDigest\<close> does not return for every input. A hash part of 66 hexadecimal
  digits makes \<^verbatim>\<open>hex.Decode\<close> store into \<^verbatim>\<open>dst[32]\<close> of the 32-byte array before
  the length is checked. (Whenever \<open>ParseDigest\<close> returns, the result is as the claim says:
  \<open>ParseDigest_result\<close>; and it returns for every input shorter than 73 bytes:
  \<open>ParseDigest_panic_only_long\<close>.)
\<close>

theorem C3_ParseDigest_panics_on_long_hash:
  "ParseDigest (''sha256-'' @ replicate 66 CHR ''0'') = Inl IndexOutOfRange"
  by code_simp

theorem C3_ParseDigest_panics_on_long_hash_witness:
  "ParseDigest (''sha256-'' @ replicate 66 CHR ''0'') \<noteq> Inr zeroDigest"
  using C3_ParseDigest_panics_on_long_hash by simp

lemma valid_Name_Digest_panics:
  "IsValid (ParseNameNoDefaults (''mm@sha256-'' @ replicate 66 CHR ''0''))
   \<and> Name_Digest (ParseNameNoDefaults (''mm@sha256-'' @ replicate 66 CHR ''0''))
       = Inl IndexOutOfRange"
  by code_simp

text \<open>
  C6, as the code has it: for a Digest that is not valid, \<open>Digest.String\<close> is
  \<open>sha256-\<close> and 64 zeros when the type is SHA256; for any other type it is
  \<open>unknown-\<close> and the hexadecimal encoding of the hash, which is 64 zeros exactly when
  the hash is all zero.
\<close>

theorem C6_String_of_invalid_Digest:
  "\<not> Digest_IsValid d \<Longrightarrow>
     (Type d = DigestTypeSHA256 \<longrightarrow> Digest_String d = ''sha256-'' @ replicate 64 CHR ''0'')
     \<and> (Type d \<noteq> DigestTypeSHA256 \<longrightarrow>
          Digest_String d = ''unknown-'' @ EncodeToString (Hash d)
          \<and> (Digest_String d = ''unknown-'' @ replicate 64 CHR ''0'') = (Hash d = zeroHash))"
proof (intro conjI impI)
  assume "\<not> Digest_IsValid d" "Type d = DigestTypeSHA256"
  then have "Hash d = zeroHash" by (simp add: Digest_IsValid_def)
  with Encode_zeroHash [of "Hash d"] \<open>Type d = DigestTypeSHA256\<close>
  show "Digest_String d = ''sha256-'' @ replicate 64 CHR ''0''"
    by (simp add: Digest_String_def DigestType_String_def EncodeToString_def)
next
  assume "Type d \<noteq> DigestTypeSHA256"
  then show s: "Digest_String d = ''unknown-'' @ EncodeToString (Hash d)"
    by (simp add: Digest_String_def DigestType_String_def)
  show "(Digest_String d = ''unknown-'' @ replicate 64 CHR ''0'') = (Hash d = zeroHash)"
    using Encode_zeroHash [of "Hash d"] by (simp add: s EncodeToString_def)
qed

theorem C6_String_of_invalid_Digest_witness:
  "\<not> Digest_IsValid zeroDigest \<and> Type zeroDigest \<noteq> DigestTypeSHA256
   \<and> Digest_String zeroDigest = ''unknown-'' @ replicate 64 CHR ''0''"
proof -
  have v: "\<not> Digest_IsValid zeroDigest"
    by (simp add: Digest_IsValid_def zeroDigest_def DigestTypeSHA256_def)
  have t: "Type zeroDigest \<noteq> DigestTypeSHA256" by (simp add: zeroDigest_def DigestTypeSHA256_def)
  have h: "Hash zeroDigest = zeroHash" by (simp add: zeroDigest_def)
  from C6_String_of_invalid_Digest [OF v] t h v show ?thesis by blast
qed

text \<open>
  The claim as stated fails for a Digest of an unrecognized type whose hash is not zero:
  the hash is printed as it is.
\<close>

theorem C6_unknown_type_nonzero_hash_counterexample:
  "\<not> Digest_IsValid \<lparr>Type = 0, Hash = 1 # replicate 31 0\<rparr>
   \<and> Type \<lparr>Type = 0, Hash = 1 # replicate 31 0\<rparr> \<noteq> DigestTypeSHA256
   \<and> length (Hash \<lparr>Type = 0, Hash = 1 # replicate 31 0\<rparr>) = 32
   \<and> Digest_String \<lparr>Type = 0, Hash = 1 # replicate 31 0\<rparr>
       = ''unknown-0100000000000000000000000000000000000000000000000000000000000000''
   \<and> Digest_String \<lparr>Type = 0, Hash = 1 # replicate 31 0\<rparr>
       \<noteq> ''unknown-'' @ replicate 64 CHR ''0''"
  by code_simp

text \<open>
  The indices into \<open>hextable\<close> are always in range, so the encoding never fails.
\<close>

lemma Encode_indices_in_range:
  "unat (drop_bit 4 (v :: 8 word)) < length hextable \<and> unat (v AND 0x0f) < length hextable"
  using high_nibble_bound [of v] low_nibble_bound [of v] by (simp add: hextable_def)

text \<open>
  C10: for 64 hexadecimal digits \<open>h\<close>, not all zero, the Name parsed from
  \<open>model@sha256:h\<close> has a valid digest and is not a valid Name.
\<close>

theorem C10_colon_digest_invalidates_Name:
  assumes len: "length h = 64" and hex: "\<forall>c \<in> set h. isHexDigit c"
    and nz: "h \<noteq> replicate 64 CHR ''0''"
  shows "(\<exists>d. Name_Digest (ParseNameNoDefaults (''model@sha256:'' @ h)) = Inr d \<and> Digest_IsValid d)
         \<and> \<not> IsValid (ParseNameNoDefaults (''model@sha256:'' @ h))"
proof -
  let ?rd = "''sha256:'' @ h"
  from hex isHexDigit_not_sep have at: "CHR ''@'' \<notin> set ?rd" and col: "CHR '':'' \<notin> set h"
    by auto
  have "''model@sha256:'' @ h = ''model'' @ CHR ''@'' # ?rd" by simp
  with at have c1: "cutLast (''model@sha256:'' @ h) ''@'' = (''model'', ?rd, True)"
    using cutLast_present [of "CHR ''@''" ?rd "''model''"] by simp
  have c2: "cutPromised ''model'' '':'' = (''model'', [], False)"
    by (simp add: cutPromised_absent)
  have c3: "cutPromised ''model'' ''/'' = (''model'', [], False)"
    by (simp add: cutPromised_absent)
  from ParseNameNoDefaults_unfold [OF c1 c2 c3 c3]
  have n: "ParseNameNoDefaults (''model@sha256:'' @ h)
             = \<lparr>host = [], namespace = [], model = ''model'', tag = [], rawDigest = ?rd\<rparr>"
    by simp
  have "\<not> isValidPart kindDigest ?rd"
    using isValidPart_no_colon [of kindDigest ?rd] by auto
  then have invalid:
    "\<not> IsValid \<lparr>host = [], namespace = [], model = ''model'', tag = [], rawDigest = ?rd\<rparr>"
    by (simp add: IsValid_iff)
  have "?rd = ''sha256'' @ CHR '':'' # h" by simp
  with col have "cutLast ?rd '':'' = (''sha256'', h, True)"
    using cutLast_present [of "CHR '':''" h "''sha256''"] by simp
  then have c: "(case cutLast ?rd '':'' of (t0, h0, ok0) \<Rightarrow>
              if \<not> ok0 then cutLast ?rd ''-'' else (t0, h0, ok0)) = (''sha256'', h, True)"
    by simp
  from hex have hex': "\<forall>c \<in> set h. reverseHexTable c \<le> 0x0f" by (simp add: isHexDigit_iff)
  have dec: "Decode zeroHash h = Inr (hex_bytes h, 32, None)"
    using Decode_loop_hex [of h 0 zeroHash] hex' len length_hex_bytes [of h]
    by (simp add: Decode_def length_zeroHash)
  have pd: "ParseDigest ?rd = Inr \<lparr>Type = DigestTypeSHA256, Hash = hex_bytes h\<rparr>"
    unfolding ParseDigest_unfold [OF c] by (simp add: dec)
  have "hex_bytes h \<noteq> zeroHash"
    using hex_bytes_zero [of h] hex' len nz by (simp add: zeroHash_def)
  then have "Digest_IsValid \<lparr>Type = DigestTypeSHA256, Hash = hex_bytes h\<rparr>"
    by (simp add: Digest_IsValid_def)
  with pd have "\<exists>d. ParseDigest ?rd = Inr d \<and> Digest_IsValid d" by blast
  with invalid show ?thesis unfolding n Name_Digest_def by simp
qed

theorem C10_colon_digest_invalidates_Name_witness:
  "(\<exists>d. Name_Digest (ParseNameNoDefaults
        (''model@sha256:'' @ ''abcdef0123456789abcdef0123456789abcdef0123456789abcdef0123456789''))
          = Inr d
        \<and> Digest_IsValid d)
   \<and> \<not> IsValid (ParseNameNoDefaults
        (''model@sha256:'' @ ''abcdef0123456789abcdef0123456789abcdef0123456789abcdef0123456789''))"
proof -
  let ?h = "''abcdef0123456789abcdef0123456789abcdef0123456789abcdef0123456789''"
  have 1: "length ?h = 64" by simp
  have 2: "\<forall>c \<in> set ?h. isHexDigit c" by (simp add: isHexDigit_def)
  have 3: "?h \<noteq> replicate 64 CHR ''0''" by code_simp
  from C10_colon_digest_invalidates_Name [OF 1 2 3] show ?thesis .
qed

subsection \<open>Hashing\<close>

lemma writeLower_examples:
  "writeLower [] [] = []" "writeLower [] ''ab'' = ''ab''" "writeLower ''a'' ''b'' = ''ab''"
  "writeLower ''ab'' [] = ''ab''" "writeLower [] ''a'' = ''a''"
  by code_simp+

text \<open>
  C9: the Names with model \<open>ab\<close> and with model \<open>a\<close>, tag \<open>b\<close> are not equal field by
  field up to case, yet they have the same hash under every seeded hash function, and
  \<open>Equal\<close> holds: the bytes of the five fields are written with no separator.
\<close>

theorem C9_MapHash_collides_across_fields:
  "MapHash sum64 (zeroName\<lparr>model := ''ab''\<rparr>)
     = MapHash sum64 (zeroName\<lparr>model := ''a'', tag := ''b''\<rparr>)
   \<and> Equal sum64 (zeroName\<lparr>model := ''ab''\<rparr>) (zeroName\<lparr>model := ''a'', tag := ''b''\<rparr>)
   \<and> \<not> fieldsEqualFold (zeroName\<lparr>model := ''ab''\<rparr>) (zeroName\<lparr>model := ''a'', tag := ''b''\<rparr>)"
  by (simp add: MapHash_def Equal_def zeroName_def writeLower_examples fieldsEqualFold_def)

end
